theory Spec2Isabelle
  imports Main "HOL-Library.Sublist"
begin

section \<open>Text normalizer\<close>

text \<open>
  JavaScript strings are modelled as \<open>string\<close>; a \<open>char\<close> stands for one code unit in
  the range 0..255 (ASCII and Latin-1). The regular expression of \<open>preprocess\<close> has no
  \<open>u\<close> or \<open>i\<close> flag, so \<open>\d\<close> is \<open>[0-9]\<close> and \<open>\w\<close> is \<open>[A-Za-z0-9_]\<close>.
\<close>

definition digit_char :: "char \<Rightarrow> bool" where
  "digit_char c = (48 \<le> (of_char c :: nat) \<and> (of_char c :: nat) \<le> 57)"

definition word_char :: "char \<Rightarrow> bool" where
  "word_char c =
     ((65 \<le> (of_char c :: nat) \<and> (of_char c :: nat) \<le> 90) \<or>
      (97 \<le> (of_char c :: nat) \<and> (of_char c :: nat) \<le> 122) \<or>
      (48 \<le> (of_char c :: nat) \<and> (of_char c :: nat) \<le> 57) \<or>
      c = CHR ''_'')"

text \<open>The characters outside the negated class \<open>[^\d\w#]\<close>.\<close>

definition kept_char :: "char \<Rightarrow> bool" where
  "kept_char c = (digit_char c \<or> word_char c \<or> c = CHR ''#'')"

text \<open>
  \<open>text.replace(/\[NEWLINE\]|\[TAB\]|[^\d\w#]/g, " ")\<close>: the global replacement scans
  from the left; at each position the alternatives are tried in order, a match is
  replaced by one space and the scan goes on behind it, a position with no match keeps
  its character.
\<close>

fun preprocess :: "string \<Rightarrow> string" where
  "preprocess [] = []"
| "preprocess (c # cs) =
     (if take 9 (c # cs) = ''[NEWLINE]'' then CHR '' '' # preprocess (drop 9 (c # cs))
      else if take 5 (c # cs) = ''[TAB]'' then CHR '' '' # preprocess (drop 5 (c # cs))
      else if kept_char c then c # preprocess cs
      else CHR '' '' # preprocess cs)"

text \<open>
  \<open>s.split(sep)\<close> for a separator of one character: the pieces between the separators,
  empty pieces included; the empty string gives one empty piece.
\<close>

fun split_on :: "char \<Rightarrow> string \<Rightarrow> string list" where
  "split_on sep [] = [[]]"
| "split_on sep (c # cs) =
     (if c = sep then [] # split_on sep cs
      else (case split_on sep cs of
              [] \<Rightarrow> [[c]]
            | w # ws \<Rightarrow> (c # w) # ws))"

text \<open>\<open>text.split(" ").filter((el) => el)\<close>: the empty string is the only falsy one.\<close>

definition tokenize :: "string \<Rightarrow> string list" where
  "tokenize text = filter (\<lambda>el. el \<noteq> []) (split_on CHR '' '' text)"

text \<open>
  \<open>toLowerCase\<close> on a code unit below 256: the capital letters \<open>A-Z\<close> and the Latin-1
  capitals \<open>0xC0-0xDE\<close> (without the multiplication sign \<open>0xD7\<close>) move up by 32.
\<close>

definition toLowerCase_char :: "char \<Rightarrow> char" where
  "toLowerCase_char c =
     (let n = (of_char c :: nat) in
      if (65 \<le> n \<and> n \<le> 90) \<or> (192 \<le> n \<and> n \<le> 222 \<and> n \<noteq> 215)
      then char_of (n + 32) else c)"

definition toLowerCase :: "string \<Rightarrow> string" where
  "toLowerCase s = map toLowerCase_char s"

definition normalize :: "string list \<Rightarrow> string list" where
  "normalize tokens = map (\<lambda>token. toLowerCase token) tokens"

text \<open>\<open>token.startsWith("#")\<close>\<close>

definition startsWith_hash :: "string \<Rightarrow> bool" where
  "startsWith_hash token = (case token of [] \<Rightarrow> False | c # _ \<Rightarrow> c = CHR ''#'')"

text \<open>\<open>token.replace(/#/, "")\<close>: without the \<open>g\<close> flag only the first match goes.\<close>

definition replace_first_hash :: "string \<Rightarrow> string" where
  "replace_first_hash token = remove1 CHR ''#'' token"

text \<open>The callback of the \<open>reduce\<close> in \<open>collectTypes\<close>.\<close>

definition collect_step :: "string list \<Rightarrow> string \<Rightarrow> string list" where
  "collect_step types token =
     (if token \<in> set types then types
      else if startsWith_hash token then
        (let tokenWithoutHashtag = replace_first_hash token in
         if tokenWithoutHashtag \<in> set types then types @ [token]
         else types @ [token, tokenWithoutHashtag])
      else types @ [token])"

definition collectTypes :: "string list \<Rightarrow> string list" where
  "collectTypes tokens = foldl collect_step [] tokens"

section \<open>Indexer\<close>

text \<open>
  A chain of \<open>PostingsListItem\<close> nodes is the list of its \<open>documentId\<close> fields from
  the head on; \<open>undefined\<close> in the place of a head is the empty list. The indexer never
  writes to a node after it has built it, so the chains sharing a tail do not matter.
  Line numbers are \<open>nat\<close>: the source counts them in a double, exact below \<open>2^53\<close>.
\<close>

type_synonym postings = "nat list"

record dictionaryItem =
  item_term :: string
  item_size :: nat
  postingsList :: postings

type_synonym dictionary = "string \<rightharpoonup> dictionaryItem"

text \<open>
  The array \<open>ids\<close>: a hole and a stored \<open>undefined\<close> both read as \<open>undefined\<close>
  (\<open>None\<close>); writing behind the end lengthens the array and leaves holes.
\<close>

type_synonym ids_array = "string option list"

definition array_get :: "'a option list \<Rightarrow> nat \<Rightarrow> 'a option" where
  "array_get xs i = (if i < length xs then xs ! i else None)"

definition array_set :: "'a option list \<Rightarrow> nat \<Rightarrow> 'a option \<Rightarrow> 'a option list" where
  "array_set xs i v =
     (if i < length xs then xs[i := v]
      else xs @ replicate (i - length xs) None @ [v])"

record index_state =
  lineNumber :: nat
  dictionary :: dictionary
  ids :: ids_array

text \<open>The body of \<open>types.forEach\<close>: create or update the entry of one type.\<close>

definition add_posting :: "nat \<Rightarrow> dictionary \<Rightarrow> string \<Rightarrow> dictionary" where
  "add_posting n dict ty =
     (case dict ty of
        Some dictionaryItem \<Rightarrow>
          dict(ty \<mapsto> dictionaryItem\<lparr>item_size := item_size dictionaryItem + 1,
                                    postingsList := n # postingsList dictionaryItem\<rparr>)
      | None \<Rightarrow>
          dict(ty \<mapsto> \<lparr>item_term = ty, item_size = 1, postingsList = [n]\<rparr>))"

text \<open>
  The destructuring \<open>const [id, userId, userName, tweetText] = line.split(SEPARATOR)\<close>
  reads positions 0 and 3 of the pieces; a missing position is \<open>undefined\<close>.
\<close>

definition SEPARATOR :: char where
  "SEPARATOR = CHR 0x09"

definition skip_line :: "index_state \<Rightarrow> index_state" where
  "skip_line s = s\<lparr>lineNumber := lineNumber s + 1\<rparr>"

text \<open>
  One turn of the loop over the lines. The progress output every 100000 lines does not
  touch the index and is left out.
\<close>

definition index_line :: "index_state \<Rightarrow> string \<Rightarrow> index_state" where
  "index_line s line =
     (let fields = map Some (split_on SEPARATOR line);
          docId = array_get fields 0;
          tweetText = array_get fields 3
      in case tweetText of
           None \<Rightarrow> skip_line s
         | Some txt \<Rightarrow>
             if txt = [] then skip_line s
             else
               let preprocessed = preprocess txt in
               if preprocessed = [] then skip_line s
               else
                 let tokenized = tokenize preprocessed;
                     normalized = normalize tokenized;
                     types = collectTypes normalized
                 in \<lparr>lineNumber = lineNumber s + 1,
                     dictionary = foldl (add_posting (lineNumber s)) (dictionary s) types,
                     ids = array_set (ids s) (lineNumber s) docId\<rparr>)"

definition index_init :: index_state where
  "index_init = \<lparr>lineNumber = 0, dictionary = Map.empty, ids = []\<rparr>"

text \<open>\<open>index\<close> on the lines that the reader delivers, in their order.\<close>

definition index_lines :: "string list \<Rightarrow> index_state" where
  "index_lines lines = foldl index_line index_init lines"

section \<open>Query engine\<close>

text \<open>\<open>dictionary.get(term)?.postingsList\<close>\<close>

definition get_postings :: "dictionary \<Rightarrow> string \<Rightarrow> postings" where
  "get_postings dict t = (case dict t of None \<Rightarrow> [] | Some e \<Rightarrow> postingsList e)"

text \<open>
  The comparator \<open>(a, b) => a.size - b.size\<close> receives two \<open>PostingsListItem\<close>
  objects. Such an object has the properties \<open>documentId\<close> and \<open>nextPosting\<close> only, so
  \<open>a.size\<close> is \<open>undefined\<close>, which the subtraction converts to \<open>NaN\<close>.
\<close>

datatype jsnumber = NaN | Num int

definition node_size :: "postings \<Rightarrow> jsnumber" where
  "node_size a = NaN"

fun js_minus :: "jsnumber \<Rightarrow> jsnumber \<Rightarrow> jsnumber" where
  "js_minus (Num x) (Num y) = Num (x - y)"
| "js_minus _ _ = NaN"

definition compare_size :: "postings \<Rightarrow> postings \<Rightarrow> jsnumber" where
  "compare_size a b = js_minus (node_size a) (node_size b)"

text \<open>
  \<open>Array.prototype.sort\<close> with a comparator: \<open>undefined\<close> elements are never passed to
  the comparator and go to the end; a comparator result \<open>NaN\<close> counts as \<open>+0\<close>; the sort
  is stable.
\<close>

definition sort_compare :: "('a \<Rightarrow> 'a \<Rightarrow> jsnumber) \<Rightarrow> 'a \<Rightarrow> 'a \<Rightarrow> int" where
  "sort_compare comparefn x y = (case comparefn x y of NaN \<Rightarrow> 0 | Num v \<Rightarrow> v)"

fun insert_stable :: "('a \<Rightarrow> 'a \<Rightarrow> jsnumber) \<Rightarrow> 'a \<Rightarrow> 'a list \<Rightarrow> 'a list" where
  "insert_stable comparefn x [] = [x]"
| "insert_stable comparefn x (y # ys) =
     (if sort_compare comparefn x y \<le> 0 then x # y # ys
      else y # insert_stable comparefn x ys)"

definition array_sort :: "(postings \<Rightarrow> postings \<Rightarrow> jsnumber) \<Rightarrow> postings list \<Rightarrow> postings list" where
  "array_sort comparefn xs =
     foldr (insert_stable comparefn) (filter (\<lambda>x. x \<noteq> []) xs) []
     @ filter (\<lambda>x. x = []) xs"

text \<open>\<open>allItems.shift()\<close>: the first element and the rest; \<open>undefined\<close> on an empty array.\<close>

definition shift :: "postings list \<Rightarrow> postings \<times> postings list" where
  "shift allItems = (case allItems of [] \<Rightarrow> ([], []) | x # xs \<Rightarrow> (x, xs))"

text \<open>
  The inner loop \<open>while (itemA && itemB)\<close>; the third argument is the chain behind
  \<open>resultList\<close>, which grows at its end.
\<close>

fun intersect_loop :: "postings \<Rightarrow> postings \<Rightarrow> postings \<Rightarrow> postings" where
  "intersect_loop [] itemB res = res"
| "intersect_loop (a # itemA) [] res = res"
| "intersect_loop (a # itemA) (b # itemB) res =
     (if a = b then intersect_loop itemA itemB (res @ [a])
      else if a > b then intersect_loop itemA (b # itemB) res
      else intersect_loop (a # itemA) itemB res)"

text \<open>The \<open>do ... while\<close> loop; its result is the chain behind \<open>resultList\<close> at the exit.\<close>

function query_loop :: "postings \<Rightarrow> postings \<Rightarrow> postings \<Rightarrow> postings list \<Rightarrow> postings" where
  "query_loop res itemA itemB allItems =
     (let res1 = intersect_loop itemA itemB res;
          itemA1 = res1;
          (itemB1, allItems1) = shift allItems
      in if itemA1 \<noteq> [] \<and> itemB1 \<noteq> [] then
           (if allItems1 \<noteq> [] \<or> (itemA1 \<noteq> [] \<and> itemB1 \<noteq> [])
            then query_loop [] itemA1 itemB1 allItems1
            else [])
         else res1)"
  by pat_completeness auto
termination
  by (relation "measure (\<lambda>(res, itemA, itemB, allItems). length allItems)")
     (auto simp: shift_def split: list.splits)

text \<open>\<open>query(dictionary, idsMap, ...terms)\<close>; the result may hold \<open>undefined\<close>.\<close>

definition query :: "dictionary \<Rightarrow> ids_array \<Rightarrow> string list \<Rightarrow> string option list" where
  "query dict idsMap terms =
     (if length terms = 1 then
        map (\<lambda>r. array_get idsMap r) (get_postings dict (terms ! 0))
      else
        let allItems = array_sort compare_size (map (get_postings dict) terms);
            (itemA, allItems1) = shift allItems;
            (itemB, allItems2) = shift allItems1
        in map (\<lambda>r. array_get idsMap r) (query_loop [] itemA itemB allItems2))"

section \<open>Notions used in the statements\<close>

text \<open>What one line gives to the loop body: the two fields it reads and its types.\<close>

definition docId_of :: "string \<Rightarrow> string option" where
  "docId_of line = array_get (map Some (split_on SEPARATOR line)) 0"

definition tweetText_of :: "string \<Rightarrow> string option" where
  "tweetText_of line = array_get (map Some (split_on SEPARATOR line)) 3"

text \<open>The two \<open>continue\<close> branches: the text is missing, empty, or empty once preprocessed.\<close>

definition skipped_line :: "string \<Rightarrow> bool" where
  "skipped_line line =
     (case tweetText_of line of
        None \<Rightarrow> True
      | Some txt \<Rightarrow> txt = [] \<or> preprocess txt = [])"

definition line_types :: "string \<Rightarrow> string list" where
  "line_types line =
     (case tweetText_of line of
        None \<Rightarrow> []
      | Some txt \<Rightarrow> collectTypes (normalize (tokenize (preprocess txt))))"

text \<open>A line made of four fields, for the examples.\<close>

definition record_line :: "string \<Rightarrow> string \<Rightarrow> string" where
  "record_line docId txt =
     docId @ [SEPARATOR] @ ''u'' @ [SEPARATOR] @ ''n'' @ [SEPARATOR] @ txt"

text \<open>The external ids stored in the table are pairwise different.\<close>

definition distinct_ids :: "ids_array \<Rightarrow> bool" where
  "distinct_ids idsMap = distinct (filter (\<lambda>x. x \<noteq> None) idsMap)"

text \<open>What holds of the index after every line.\<close>

definition index_inv :: "index_state \<Rightarrow> bool" where
  "index_inv s \<longleftrightarrow>
     length (ids s) \<le> lineNumber s \<and>
     (\<forall>t e. dictionary s t = Some e \<longrightarrow>
        item_term e = t \<and> item_size e = length (postingsList e) \<and>
        postingsList e \<noteq> [] \<and> sorted_wrt (>) (postingsList e) \<and>
        (\<forall>d \<in> set (postingsList e). d < lineNumber s \<and> array_get (ids s) d \<noteq> None))"

text \<open>A postings list as the data model wants it.\<close>

definition postings_ok :: "postings \<Rightarrow> bool" where
  "postings_ok ps \<longleftrightarrow> ps \<noteq> [] \<and> sorted_wrt (>) ps \<and> distinct ps"

declare query_loop.simps [simp del]

section \<open>Properties of the normalizer\<close>

lemma replace_first_hash_tl:
  "startsWith_hash token \<Longrightarrow> replace_first_hash token = tl token"
  by (cases token) (simp_all add: startsWith_hash_def replace_first_hash_def)

lemma replace_first_hash_neq:
  "startsWith_hash token \<Longrightarrow> replace_first_hash token \<noteq> token"
  by (cases token) (simp_all add: startsWith_hash_def replace_first_hash_def)

lemma collectTypes_snoc:
  "collectTypes (tokens @ [token]) = collect_step (collectTypes tokens) token"
  by (simp add: collectTypes_def)

lemma collect_step_distinct:
  "distinct types \<Longrightarrow> distinct (collect_step types token)"
  using replace_first_hash_neq [of token]
  by (auto simp: collect_step_def Let_def)

lemma collectTypes_distinct: "distinct (collectTypes tokens)"
  by (induction tokens rule: rev_induct)
     (simp_all add: collectTypes_snoc collect_step_distinct, simp add: collectTypes_def)

lemma collect_step_mono: "set types \<subseteq> set (collect_step types token)"
  by (auto simp: collect_step_def Let_def)

lemma collect_step_token: "token \<in> set (collect_step types token)"
  by (auto simp: collect_step_def Let_def)

lemma collect_step_prefix: "prefix types (collect_step types token)"
  by (auto simp: collect_step_def Let_def)

lemma foldl_collect_step_prefix: "prefix types (foldl collect_step types tokens)"
proof (induction tokens arbitrary: types)
  case Nil
  show ?case by simp
next
  case (Cons t ts)
  have "prefix types (collect_step types t)" by (rule collect_step_prefix)
  also have "prefix (collect_step types t) (foldl collect_step (collect_step types t) ts)"
    by (rule Cons.IH)
  finally show ?case by simp
qed

lemma collectTypes_prefix: "prefix (collectTypes ts) (collectTypes (ts @ us))"
  by (simp add: collectTypes_def foldl_collect_step_prefix)

lemma collectTypes_tokens: "set tokens \<subseteq> set (collectTypes tokens)"
proof (induction tokens rule: rev_induct)
  case Nil
  show ?case by simp
next
  case (snoc t ts)
  have "set ts \<subseteq> set (collect_step (collectTypes ts) t)"
    using snoc.IH collect_step_mono by blast
  then show ?case
    by (simp add: collectTypes_snoc collect_step_token)
qed

lemma collect_step_subset:
  "set (collect_step types token) \<subseteq>
     set types \<union> {token} \<union> (if startsWith_hash token then {replace_first_hash token} else {})"
  by (auto simp: collect_step_def Let_def)

lemma collectTypes_subset:
  "set (collectTypes tokens) \<subseteq>
     set tokens \<union> replace_first_hash ` {t \<in> set tokens. startsWith_hash t}"
proof (induction tokens rule: rev_induct)
  case Nil
  show ?case by (simp add: collectTypes_def)
next
  case (snoc t ts)
  show ?case
    using snoc.IH collect_step_subset [of "collectTypes ts" t]
    by (auto simp: collectTypes_snoc split: if_splits)
qed

lemma strip_is_hash:
  "startsWith_hash t \<Longrightarrow> replace_first_hash t = ''#'' \<Longrightarrow> t = ''##''"
  by (cases t) (simp_all add: startsWith_hash_def replace_first_hash_def)

lemma collect_step_hash: "[] \<in> set (collect_step types ''#'')" if "''#'' \<notin> set types"
  using that
  by (simp add: collect_step_def startsWith_hash_def replace_first_hash_def)

lemma collectTypes_empty_type:
  assumes mem: "''#'' \<in> set ts"
    and before: "''##'' \<notin> set (takeWhile (\<lambda>t. t \<noteq> ''#'') ts)"
  shows "[] \<in> set (collectTypes ts)"
proof -
  let ?pre = "takeWhile (\<lambda>t. t \<noteq> ''#'') ts"
  let ?post = "dropWhile (\<lambda>t. t \<noteq> ''#'') ts"
  from mem have "?post \<noteq> []"
    by (simp add: dropWhile_eq_Nil_conv)
  then obtain post where post: "?post = ''#'' # post"
    using hd_dropWhile [of "\<lambda>t. t \<noteq> ''#''" ts] by (cases ?post) auto
  have ts: "ts = (?pre @ [''#'']) @ post"
    using takeWhile_dropWhile_id [of "\<lambda>t. t \<noteq> ''#''" ts] post by simp
  have "''#'' \<notin> set ?pre"
    by (auto dest: set_takeWhileD)
  have "''#'' \<notin> set (collectTypes ?pre)"
  proof
    assume "''#'' \<in> set (collectTypes ?pre)"
    with collectTypes_subset [of ?pre] \<open>''#'' \<notin> set ?pre\<close>
    obtain t where "t \<in> set ?pre" "startsWith_hash t" "replace_first_hash t = ''#''"
      by (auto simp only: subset_iff Un_iff image_iff mem_Collect_eq)
    with strip_is_hash [of t] before show False
      by simp
  qed
  then have "[] \<in> set (collectTypes (?pre @ [''#'']))"
    by (simp add: collectTypes_snoc collect_step_hash)
  moreover have "set (collectTypes (?pre @ [''#''])) \<subseteq> set (collectTypes ((?pre @ [''#'']) @ post))"
    by (rule set_mono_prefix [OF collectTypes_prefix])
  ultimately show ?thesis
    using ts by auto
qed

lemma strip_is_token:
  "startsWith_hash u \<Longrightarrow> replace_first_hash u = t \<Longrightarrow> u = CHR ''#'' # t"
  by (cases u) (auto simp: startsWith_hash_def replace_first_hash_def)

lemma collect_step_expands:
  "t \<notin> set types \<Longrightarrow> startsWith_hash t \<Longrightarrow>
   t \<in> set (collect_step types t) \<and> replace_first_hash t \<in> set (collect_step types t)"
  by (simp add: collect_step_def Let_def)

lemma collectTypes_expands_first:
  assumes mem: "t \<in> set ts" and hash: "startsWith_hash t"
    and before: "(CHR ''#'' # t) \<notin> set (takeWhile (\<lambda>u. u \<noteq> t) ts)"
  shows "t \<in> set (collectTypes ts) \<and> replace_first_hash t \<in> set (collectTypes ts)"
proof -
  let ?pre = "takeWhile (\<lambda>u. u \<noteq> t) ts"
  let ?post = "dropWhile (\<lambda>u. u \<noteq> t) ts"
  from mem have "?post \<noteq> []"
    by (simp add: dropWhile_eq_Nil_conv)
  then obtain post where post: "?post = t # post"
    using hd_dropWhile [of "\<lambda>u. u \<noteq> t" ts] by (cases ?post) auto
  have ts: "ts = (?pre @ [t]) @ post"
    using takeWhile_dropWhile_id [of "\<lambda>u. u \<noteq> t" ts] post by simp
  have notin: "t \<notin> set ?pre"
    by (auto dest: set_takeWhileD)
  have "t \<notin> set (collectTypes ?pre)"
  proof
    assume "t \<in> set (collectTypes ?pre)"
    with collectTypes_subset [of ?pre] notin
    obtain u where "u \<in> set ?pre" "startsWith_hash u" "replace_first_hash u = t"
      by (auto simp only: subset_iff Un_iff image_iff mem_Collect_eq)
    with strip_is_token [of u t] before show False
      by simp
  qed
  then have "t \<in> set (collectTypes (?pre @ [t])) \<and>
             replace_first_hash t \<in> set (collectTypes (?pre @ [t]))"
    using collect_step_expands [OF _ hash] by (simp add: collectTypes_snoc)
  moreover have "set (collectTypes (?pre @ [t])) \<subseteq> set (collectTypes ((?pre @ [t]) @ post))"
    by (rule set_mono_prefix [OF collectTypes_prefix])
  ultimately show ?thesis
    using ts by auto
qed

lemma toLowerCase_char_hash: "toLowerCase_char c = CHR ''#'' \<longleftrightarrow> c = CHR ''#''"
proof
  assume "c = CHR ''#''"
  then show "toLowerCase_char c = CHR ''#''"
    by (simp add: toLowerCase_char_def)
next
  assume h: "toLowerCase_char c = CHR ''#''"
  show "c = CHR ''#''"
  proof (rule ccontr)
    assume n: "c \<noteq> CHR ''#''"
    with h have up: "(65 \<le> (of_char c :: nat) \<and> (of_char c :: nat) \<le> 90) \<or>
        (192 \<le> (of_char c :: nat) \<and> (of_char c :: nat) \<le> 222 \<and> (of_char c :: nat) \<noteq> 215)"
      and eq: "char_of ((of_char c :: nat) + 32) = CHR ''#''"
      by (auto simp: toLowerCase_char_def Let_def split: if_splits)
    from eq have "(of_char (char_of ((of_char c :: nat) + 32) :: char) :: nat) = of_char CHR ''#''"
      by simp
    then have "((of_char c :: nat) + 32) mod 256 = 35"
      by (simp add: of_char_of)
    moreover from up have "(of_char c :: nat) + 32 < 256"
      by linarith
    ultimately have "(of_char c :: nat) + 32 = 35"
      by simp
    with up show False
      by linarith
  qed
qed

lemma toLowerCase_hash: "toLowerCase t = ''#'' \<longleftrightarrow> t = ''#''"
  by (cases t; cases "tl t") (auto simp: toLowerCase_def toLowerCase_char_hash)

lemma toLowerCase_hash_hash: "toLowerCase t = ''##'' \<longleftrightarrow> t = ''##''"
  by (cases t; cases "tl t"; cases "tl (tl t)") (auto simp: toLowerCase_def toLowerCase_char_hash)

lemma toLowerCase_hash_sym: "''#'' = toLowerCase t \<longleftrightarrow> t = ''#''"
  using toLowerCase_hash [of t] by auto

lemma toLowerCase_hash_hash_sym: "''##'' = toLowerCase t \<longleftrightarrow> t = ''##''"
  using toLowerCase_hash_hash [of t] by auto

lemma normalize_takeWhile_hash:
  "takeWhile (\<lambda>t. t \<noteq> ''#'') (normalize ts) = normalize (takeWhile (\<lambda>t. t \<noteq> ''#'') ts)"
  by (induction ts) (simp_all add: normalize_def toLowerCase_hash)

lemma normalize_hash_mem: "''#'' \<in> set (normalize ts) \<longleftrightarrow> ''#'' \<in> set ts"
  by (auto simp: normalize_def image_iff toLowerCase_hash_sym)

lemma normalize_hash_hash_mem: "''##'' \<in> set (normalize ts) \<longleftrightarrow> ''##'' \<in> set ts"
  by (auto simp: normalize_def image_iff toLowerCase_hash_hash_sym)

lemma tokenize_Nil: "tokenize [] = []"
  by (simp add: tokenize_def)

lemma preprocess_Nil_iff: "preprocess txt = [] \<longleftrightarrow> txt = []"
  by (cases "txt") simp_all

section \<open>Properties of the indexer\<close>

lemma split_on_nonempty: "split_on sep s \<noteq> []"
  by (induction s) (auto split: list.splits)

lemma docId_of_Some: "docId_of line \<noteq> None"
  using split_on_nonempty [of SEPARATOR line]
  by (cases "split_on SEPARATOR line") (simp_all add: docId_of_def array_get_def)

lemma index_line_skipped:
  "skipped_line line \<Longrightarrow> index_line s line = skip_line s"
  by (auto simp: index_line_def skipped_line_def tweetText_of_def Let_def split: option.splits)

lemma index_line_indexed:
  "\<not> skipped_line line \<Longrightarrow>
   index_line s line =
     \<lparr>lineNumber = lineNumber s + 1,
      dictionary = foldl (add_posting (lineNumber s)) (dictionary s) (line_types line),
      ids = array_set (ids s) (lineNumber s) (docId_of line)\<rparr>"
  by (auto simp: index_line_def skipped_line_def tweetText_of_def line_types_def docId_of_def
        Let_def split: option.splits)

lemma lineNumber_index_line: "lineNumber (index_line s line) = lineNumber s + 1"
  by (cases "skipped_line line") (simp_all add: index_line_skipped index_line_indexed skip_line_def)

lemma index_lines_snoc: "index_lines (ls @ [l]) = index_line (index_lines ls) l"
  by (simp add: index_lines_def)

lemma lineNumber_index_lines: "lineNumber (index_lines ls) = length ls"
  by (induction ls rule: rev_induct)
     (simp_all add: index_lines_snoc lineNumber_index_line, simp add: index_lines_def index_init_def)

lemma foldl_add_posting:
  "distinct ts \<Longrightarrow>
   foldl (add_posting n) d ts t =
     (if t \<in> set ts then
        Some (case d t of
                None \<Rightarrow> \<lparr>item_term = t, item_size = 1, postingsList = [n]\<rparr>
              | Some e \<Rightarrow> e\<lparr>item_size := item_size e + 1, postingsList := n # postingsList e\<rparr>)
      else d t)"
proof (induction ts arbitrary: d)
  case Nil
  show ?case by simp
next
  case (Cons x xs)
  have other: "add_posting n d x t = d t" if "t \<noteq> x"
    using that by (simp add: add_posting_def split: option.splits)
  have same: "add_posting n d x t =
      Some (case d t of
              None \<Rightarrow> \<lparr>item_term = t, item_size = 1, postingsList = [n]\<rparr>
            | Some e \<Rightarrow> e\<lparr>item_size := item_size e + 1, postingsList := n # postingsList e\<rparr>)"
    if "t = x"
    unfolding that by (simp add: add_posting_def split: option.splits)
  from Cons.prems have dx: "x \<notin> set xs" and dxs: "distinct xs" by simp_all
  note IH = Cons.IH [OF dxs, of "add_posting n d x"]
  show ?case
  proof (cases "t = x")
    case True
    then have "t \<notin> set xs" using dx by simp
    then have "foldl (add_posting n) (add_posting n d x) xs t = add_posting n d x t"
      using IH by simp
    then show ?thesis using same [OF True] True by simp
  next
    case False
    with other IH show ?thesis by simp
  qed
qed

lemma array_get_array_set:
  "length xs \<le> i \<Longrightarrow>
   array_get (array_set xs i v) j = (if j = i then v else array_get xs j)"
  by (auto simp: array_get_def array_set_def nth_append)

lemma length_array_set:
  "length xs \<le> i \<Longrightarrow> length (array_set xs i v) = Suc i"
  by (simp add: array_set_def)

lemma line_types_distinct: "distinct (line_types line)"
  by (simp add: line_types_def collectTypes_distinct split: option.splits)

lemma index_inv_init: "index_inv index_init"
  by (simp add: index_inv_def index_init_def)

lemma index_inv_line:
  assumes inv: "index_inv s"
  shows "index_inv (index_line s line)"
proof (cases "skipped_line line")
  case True
  with inv show ?thesis
    by (fastforce simp: index_line_skipped skip_line_def index_inv_def)
next
  case False
  let ?n = "lineNumber s"
  let ?s' = "index_line s line"
  have len: "length (ids s) \<le> ?n"
    using inv by (simp add: index_inv_def)
  have ln: "lineNumber ?s' = ?n + 1"
    and dict: "dictionary ?s' = foldl (add_posting ?n) (dictionary s) (line_types line)"
    and ids': "ids ?s' = array_set (ids s) ?n (docId_of line)"
    by (simp_all add: index_line_indexed [OF False])
  have get: "array_get (ids ?s') d \<noteq> None" if "d = ?n \<or> array_get (ids s) d \<noteq> None" for d
    using that docId_of_Some [of line] by (auto simp: ids' array_get_array_set [OF len])
  have entry: "item_term e = t \<and> item_size e = length (postingsList e) \<and>
        postingsList e \<noteq> [] \<and> sorted_wrt (>) (postingsList e) \<and>
        (\<forall>d \<in> set (postingsList e). d < lineNumber ?s' \<and> array_get (ids ?s') d \<noteq> None)"
    if e: "dictionary ?s' t = Some e" for t e
  proof (cases "dictionary s t")
    case None
    with e have "e = \<lparr>item_term = t, item_size = 1, postingsList = [?n]\<rparr>"
      by (auto simp: dict foldl_add_posting [OF line_types_distinct] split: if_splits)
    then show ?thesis using get [of ?n] by (simp add: ln)
  next
    case (Some e0)
    with inv have old: "item_term e0 = t" "item_size e0 = length (postingsList e0)"
        "postingsList e0 \<noteq> []" "sorted_wrt (>) (postingsList e0)"
        "\<forall>d \<in> set (postingsList e0). d < ?n \<and> array_get (ids s) d \<noteq> None"
      by (auto simp: index_inv_def)
    from e Some have "e = e0 \<or>
        e = e0\<lparr>item_size := item_size e0 + 1, postingsList := ?n # postingsList e0\<rparr>"
      by (auto simp: dict foldl_add_posting [OF line_types_distinct] split: if_splits)
    then show ?thesis
    proof
      assume "e = e0"
      with old get show ?thesis by (auto simp: ln)
    next
      assume "e = e0\<lparr>item_size := item_size e0 + 1, postingsList := ?n # postingsList e0\<rparr>"
      with old get show ?thesis by (auto simp: ln)
    qed
  qed
  have "length (ids ?s') \<le> lineNumber ?s'"
    by (simp add: ids' ln length_array_set [OF len])
  with entry show ?thesis
    unfolding index_inv_def by blast
qed

lemma index_inv_index_lines: "index_inv (index_lines ls)"
  by (induction ls rule: rev_induct)
     (simp_all add: index_lines_snoc index_inv_line, simp add: index_lines_def index_inv_init)

lemma sorted_wrt_gt_distinct: "sorted_wrt (>) (ps :: nat list) \<Longrightarrow> distinct ps"
  by (induction ps) auto

lemma index_lines_entry:
  assumes "dictionary (index_lines ls) t = Some e"
  shows "item_term e = t" and "item_size e = length (postingsList e)"
    and "postingsList e \<noteq> []" and "sorted_wrt (>) (postingsList e)"
    and "\<forall>d \<in> set (postingsList e). d < length ls \<and> array_get (ids (index_lines ls)) d \<noteq> None"
  using assms index_inv_index_lines [of ls]
  by (auto simp: index_inv_def lineNumber_index_lines)

lemma hole_kept:
  assumes inv: "index_inv s" and n: "n < lineNumber s"
    and hole: "array_get (ids s) n = None"
    and out: "\<forall>t e. dictionary s t = Some e \<longrightarrow> n \<notin> set (postingsList e)"
  shows "array_get (ids (index_line s l)) n = None \<and>
         (\<forall>t e. dictionary (index_line s l) t = Some e \<longrightarrow> n \<notin> set (postingsList e))"
proof (cases "skipped_line l")
  case True
  with hole out show ?thesis
    by (simp add: index_line_skipped skip_line_def)
next
  case False
  have len: "length (ids s) \<le> lineNumber s"
    using inv by (simp add: index_inv_def)
  have dict: "dictionary (index_line s l) = foldl (add_posting (lineNumber s)) (dictionary s) (line_types l)"
    and ids': "ids (index_line s l) = array_set (ids s) (lineNumber s) (docId_of l)"
    by (simp_all add: index_line_indexed [OF False])
  have "array_get (ids (index_line s l)) n = None"
    using n hole by (simp add: ids' array_get_array_set [OF len])
  moreover have "n \<notin> set (postingsList e)" if e: "dictionary (index_line s l) t = Some e" for t e
  proof (cases "dictionary s t")
    case None
    with e have "postingsList e = [lineNumber s]"
      by (auto simp: dict foldl_add_posting [OF line_types_distinct] split: if_splits)
    with n show ?thesis by simp
  next
    case (Some e0)
    with e have "postingsList e = postingsList e0 \<or> postingsList e = lineNumber s # postingsList e0"
      by (auto simp: dict foldl_add_posting [OF line_types_distinct] split: if_splits)
    with out Some n show ?thesis by auto
  qed
  ultimately show ?thesis by blast
qed

lemma hole_kept_lines:
  assumes inv: "index_inv s" and n: "n < lineNumber s"
    and hole: "array_get (ids s) n = None"
    and out: "\<forall>t e. dictionary s t = Some e \<longrightarrow> n \<notin> set (postingsList e)"
  shows "array_get (ids (foldl index_line s ls)) n = None \<and>
         (\<forall>t e. dictionary (foldl index_line s ls) t = Some e \<longrightarrow> n \<notin> set (postingsList e))"
  using assms
proof (induction ls arbitrary: s)
  case Nil
  then show ?case by simp
next
  case (Cons l ls)
  have "index_inv (index_line s l)"
    by (rule index_inv_line [OF Cons.prems(1)])
  moreover have "n < lineNumber (index_line s l)"
    using Cons.prems(2) by (simp add: lineNumber_index_line)
  moreover note hole_kept [OF Cons.prems, of l]
  ultimately show ?case
    using Cons.IH [of "index_line s l"] by simp
qed

section \<open>Properties of the query engine\<close>

lemma insert_stable_compare_size: "insert_stable compare_size x ys = x # ys"
  by (cases ys) (simp_all add: sort_compare_def compare_size_def node_size_def)

lemma foldr_insert_stable_compare_size: "foldr (insert_stable compare_size) xs [] = xs"
  by (induction xs) (simp_all add: insert_stable_compare_size)

lemma array_sort_compare_size:
  "array_sort compare_size xs = filter (\<lambda>x. x \<noteq> []) xs @ filter (\<lambda>x. x = []) xs"
  by (simp add: array_sort_def foldr_insert_stable_compare_size)

lemma array_sort_present:
  "\<forall>x \<in> set xs. x \<noteq> [] \<Longrightarrow> array_sort compare_size xs = xs"
  by (simp add: array_sort_compare_size)

lemma intersect_loop_filter:
  "sorted_wrt (>) itemA \<Longrightarrow> sorted_wrt (>) itemB \<Longrightarrow>
   intersect_loop itemA itemB res = res @ filter (\<lambda>x. x \<in> set itemB) itemA"
proof (induction itemA itemB res rule: intersect_loop.induct)
  case (1 itemB res)
  show ?case by simp
next
  case (2 a itemA res)
  show ?case by simp
next
  case (3 a itemA b itemB res)
  from "3.prems" have sa: "sorted_wrt (>) itemA" and sb: "sorted_wrt (>) itemB"
    and la: "\<forall>x \<in> set itemA. x < a" and lb: "\<forall>x \<in> set itemB. x < b"
    by auto
  show ?case
  proof (cases "a = b")
    case True
    have "filter (\<lambda>x. x \<in> set (b # itemB)) itemA = filter (\<lambda>x. x \<in> set itemB) itemA"
      using la True by (intro filter_cong) auto
    with True "3.IH"(1) [OF True sa sb] show ?thesis by simp
  next
    case False
    show ?thesis
    proof (cases "a > b")
      case True
      have "a \<notin> set (b # itemB)" using True lb by auto
      with False True "3.IH"(2) [OF False True sa "3.prems"(2)] show ?thesis by simp
    next
      case ba: False
      with False have lt: "a < b" by simp
      have "filter (\<lambda>x. x \<in> set (b # itemB)) (a # itemA) =
            filter (\<lambda>x. x \<in> set itemB) (a # itemA)"
        using la lt by (intro filter_cong) auto
      with False ba "3.IH"(3) [OF False ba "3.prems"(1) sb] show ?thesis by simp
    qed
  qed
qed

lemma query_loop_filter:
  assumes "sorted_wrt (>) itemA" and "\<forall>l \<in> set (itemB # allItems). l \<noteq> [] \<and> sorted_wrt (>) l"
  shows "query_loop [] itemA itemB allItems =
         filter (\<lambda>x. \<forall>l \<in> set (itemB # allItems). x \<in> set l) itemA"
  using assms
proof (induction allItems arbitrary: itemA itemB)
  case Nil
  then show ?case
    by (subst query_loop.simps) (simp add: shift_def intersect_loop_filter)
next
  case (Cons r rs)
  let ?res1 = "filter (\<lambda>x. x \<in> set itemB) itemA"
  from Cons.prems have sb: "sorted_wrt (>) itemB" and r: "r \<noteq> []"
    and rest: "\<forall>l \<in> set (r # rs). l \<noteq> [] \<and> sorted_wrt (>) l"
    by auto
  have res1: "intersect_loop itemA itemB [] = ?res1"
    by (simp add: intersect_loop_filter [OF Cons.prems(1) sb])
  have s1: "sorted_wrt (>) ?res1"
    by (rule sorted_wrt_filter [OF Cons.prems(1)])
  show ?case
  proof (cases "?res1 = []")
    case True
    then have "filter (\<lambda>x. \<forall>l \<in> set (itemB # r # rs). x \<in> set l) itemA = []"
      by (auto simp: filter_empty_conv)
    moreover have "query_loop [] itemA itemB (r # rs) = []"
      by (subst query_loop.simps) (simp add: shift_def res1 True)
    ultimately show ?thesis by simp
  next
    case False
    have "query_loop [] itemA itemB (r # rs) = query_loop [] ?res1 r rs"
      by (subst query_loop.simps) (simp add: shift_def res1 False r)
    also have "\<dots> = filter (\<lambda>x. \<forall>l \<in> set (r # rs). x \<in> set l) ?res1"
      by (rule Cons.IH [OF s1 rest])
    also have "\<dots> = filter (\<lambda>x. \<forall>l \<in> set (itemB # r # rs). x \<in> set l) itemA"
      by (auto intro: filter_cong)
    finally show ?thesis .
  qed
qed

lemma distinct_filter_nth:
  "distinct (filter P xs) \<Longrightarrow> i < length xs \<Longrightarrow> j < length xs \<Longrightarrow>
   xs ! i = xs ! j \<Longrightarrow> P (xs ! i) \<Longrightarrow> i = j"
proof (induction xs arbitrary: i j)
  case Nil
  then show ?case by simp
next
  case (Cons x xs)
  show ?case
  proof (cases i)
    case i0: 0
    show ?thesis
    proof (cases j)
      case 0
      with i0 show ?thesis by simp
    next
      case (Suc j')
      with i0 Cons.prems have "x \<in> set xs" "P x" "x \<notin> set (filter P xs)"
        by (auto simp: nth_mem)
      then show ?thesis by simp
    qed
  next
    case (Suc i')
    show ?thesis
    proof (cases j)
      case 0
      with Suc Cons.prems have "x \<in> set xs" "P x" "x \<notin> set (filter P xs)"
        by (auto simp: nth_mem)
      then show ?thesis by simp
    next
      case j: (Suc j')
      with Suc Cons.prems Cons.IH [of i' j'] show ?thesis
        by (auto split: if_splits)
    qed
  qed
qed

lemma distinct_ids_inj:
  "distinct_ids idsMap \<Longrightarrow> inj_on (array_get idsMap) {d. array_get idsMap d \<noteq> None}"
  unfolding distinct_ids_def inj_on_def
  by (auto simp: array_get_def split: if_splits dest: distinct_filter_nth)

lemma query_single: "query dict idsMap [t] = map (array_get idsMap) (get_postings dict t)"
  by (simp add: query_def)

lemma query_present:
  assumes "\<forall>t \<in> set (t1 # t2 # ts). get_postings dict t \<noteq> [] \<and> sorted_wrt (>) (get_postings dict t)"
  shows "query dict idsMap (t1 # t2 # ts) =
         map (array_get idsMap)
           (filter (\<lambda>x. \<forall>t \<in> set (t2 # ts). x \<in> set (get_postings dict t)) (get_postings dict t1))"
proof -
  let ?heads = "map (get_postings dict) (t1 # t2 # ts)"
  have "\<forall>x \<in> set ?heads. x \<noteq> []"
    using assms by auto
  then have sorted: "array_sort compare_size ?heads = ?heads"
    by (rule array_sort_present)
  have "query_loop [] (get_postings dict t1) (get_postings dict t2) (map (get_postings dict) ts) =
        filter (\<lambda>x. \<forall>l \<in> set (get_postings dict t2 # map (get_postings dict) ts). x \<in> set l)
          (get_postings dict t1)"
    using assms by (intro query_loop_filter) auto
  also have "\<dots> = filter (\<lambda>x. \<forall>t \<in> set (t2 # ts). x \<in> set (get_postings dict t))
          (get_postings dict t1)"
    by (intro filter_cong) auto
  finally show ?thesis
    unfolding query_def sorted by (simp add: shift_def)
qed

lemma intersect_loop_Nil_right: "intersect_loop itemA [] res = res"
  by (cases itemA) simp_all

lemma query_loop_Nil_right: "query_loop [] itemA [] allItems = []"
  by (subst query_loop.simps) (simp add: intersect_loop_Nil_right split: prod.splits)

lemma query_second_head_missing:
  assumes len: "2 \<le> length terms"
    and few: "length (filter (\<lambda>x. x \<noteq> []) (map (get_postings dict) terms)) \<le> 1"
  shows "query dict idsMap terms = []"
proof -
  let ?heads = "map (get_postings dict) terms"
  let ?l = "filter (\<lambda>x. x \<noteq> []) ?heads"
  let ?e = "filter (\<lambda>x. x = []) ?heads"
  have sorted: "array_sort compare_size ?heads = ?l @ ?e"
    by (rule array_sort_compare_size)
  have total: "length ?l + length ?e = length terms"
    using sum_length_filter_compl [of "\<lambda>x. x \<noteq> []" ?heads] by simp
  have empties: "\<forall>x \<in> set ?e. x = []"
    by simp
  from len have one: "length terms \<noteq> 1"
    by simp
  show ?thesis
  proof (cases ?l)
    case Nil
    with total len obtain x y e' where e: "?e = x # y # e'"
      by (cases ?e; cases "tl ?e") auto
    with empties have "x = []" "y = []"
      by (metis list.set_intros(1), metis list.set_intros(1,2))
    with e Nil show ?thesis
      unfolding query_def sorted
      by (simp only: one if_False Let_def append_Nil shift_def list.case prod.case
            query_loop_Nil_right list.map)
  next
    case (Cons a l')
    with few have l: "?l = [a]"
      by simp
    with total len obtain y e' where e: "?e = y # e'"
      by (cases ?e) auto
    with empties have "y = []"
      by (metis list.set_intros(1))
    with e l show ?thesis
      unfolding query_def sorted
      by (simp only: one if_False Let_def append_Cons append_Nil shift_def list.case prod.case
            query_loop_Nil_right list.map)
  qed
qed

section \<open>Claims about the normalizer\<close>

text \<open>
  Claim C7. The claim has every character that is not a digit, a letter or \<open>#\<close>
  replaced by a space. The class \<open>\w\<close> of the regular expression also holds the
  underscore, so \<open>preprocess\<close> keeps an underscore where the claim (and the comment
  above the function) want a space.
\<close>

theorem preprocess_keeps_underscore:
  "preprocess ''a_b'' = ''a_b''"
  by (simp add: kept_char_def word_char_def digit_char_def)

text \<open>
  Claim C6, as amended. For every token sequence Collect Types returns a list without
  duplicates that holds every token and, besides the tokens, only stripped forms of
  tokens starting with \<open>#\<close>; it only ever appends, so the order in which types were
  first seen is kept. A token that is already among the collected types adds nothing; a
  token starting with \<open>#\<close> that is not yet collected adds itself and, unless the
  stripped form is already collected, the stripped form behind it; any other new token adds
  itself. In particular, a token sequence that contains a hashtag token, with no token
  that is this hashtag behind one more \<open>#\<close> before its first occurrence, yields both the
  hashtag and its stripped form as types: a document containing \<open>#covid\<close>, with no
  \<open>##covid\<close> before the first \<open>#covid\<close>, yields both \<open>#covid\<close> and \<open>covid\<close>. The
  tokens \<open>covid\<close>, \<open>#covid\<close> yield exactly \<open>covid\<close> and \<open>#covid\<close>.
\<close>

theorem collectTypes_dedup_and_expand:
  "distinct (collectTypes ts) \<and>
   set ts \<subseteq> set (collectTypes ts) \<and>
   set (collectTypes ts) \<subseteq> set ts \<union> replace_first_hash ` {t \<in> set ts. startsWith_hash t} \<and>
   prefix (collectTypes ts) (collectTypes (ts @ us)) \<and>
   collectTypes (ts @ [t]) =
     collectTypes ts @
       (if t \<in> set (collectTypes ts) then []
        else if startsWith_hash t \<and> replace_first_hash t \<notin> set (collectTypes ts)
             then [t, replace_first_hash t]
        else [t]) \<and>
   (h \<in> set ts \<and> startsWith_hash h \<and>
    (CHR ''#'' # h) \<notin> set (takeWhile (\<lambda>u. u \<noteq> h) ts) \<longrightarrow>
      h \<in> set (collectTypes ts) \<and> replace_first_hash h \<in> set (collectTypes ts)) \<and>
   (''#covid'' \<in> set ts \<and> ''##covid'' \<notin> set (takeWhile (\<lambda>u. u \<noteq> ''#covid'') ts) \<longrightarrow>
      ''#covid'' \<in> set (collectTypes ts) \<and> ''covid'' \<in> set (collectTypes ts)) \<and>
   collectTypes [''covid'', ''#covid''] = [''covid'', ''#covid'']"
proof -
  have step: "collectTypes (ts @ [t]) =
     collectTypes ts @
       (if t \<in> set (collectTypes ts) then []
        else if startsWith_hash t \<and> replace_first_hash t \<notin> set (collectTypes ts)
             then [t, replace_first_hash t]
        else [t])"
    by (simp add: collectTypes_snoc collect_step_def)
  have gen: "h \<in> set ts \<and> startsWith_hash h \<and>
    (CHR ''#'' # h) \<notin> set (takeWhile (\<lambda>u. u \<noteq> h) ts) \<longrightarrow>
      h \<in> set (collectTypes ts) \<and> replace_first_hash h \<in> set (collectTypes ts)"
    using collectTypes_expands_first [of h ts] by blast
  have sh: "startsWith_hash ''#covid''" and rh: "replace_first_hash ''#covid'' = ''covid''"
    by (simp_all add: startsWith_hash_def replace_first_hash_def)
  have covid: "''#covid'' \<in> set ts \<and>
      ''##covid'' \<notin> set (takeWhile (\<lambda>u. u \<noteq> ''#covid'') ts) \<longrightarrow>
      ''#covid'' \<in> set (collectTypes ts) \<and> ''covid'' \<in> set (collectTypes ts)"
    using collectTypes_expands_first [of "''#covid''" ts, OF _ sh] rh by simp
  have two: "collectTypes [''covid'', ''#covid''] = [''covid'', ''#covid'']"
    by (simp add: collectTypes_def collect_step_def startsWith_hash_def replace_first_hash_def
          Let_def)
  from step gen covid two show ?thesis
    using collectTypes_distinct [of ts] collectTypes_tokens [of ts] collectTypes_subset [of ts]
      collectTypes_prefix [of ts us]
    by (simp only: simp_thms)
qed

theorem collectTypes_dedup_and_expand_witness:
  "''#covid'' \<in> set [''the'', ''#covid'', ''covid'', ''#covid''] \<and>
   startsWith_hash ''#covid'' \<and>
   ''##covid'' \<notin> set (takeWhile (\<lambda>u. u \<noteq> ''#covid'')
                        [''the'', ''#covid'', ''covid'', ''#covid'']) \<and>
   ''#covid'' \<in> set (collectTypes [''the'', ''#covid'', ''covid'', ''#covid'']) \<and>
   ''covid'' \<in> set (collectTypes [''the'', ''#covid'', ''covid'', ''#covid'']) \<and>
   distinct (collectTypes [''the'', ''#covid'', ''covid'', ''#covid''])"
proof -
  have m: "''#covid'' \<in> set [''the'', ''#covid'', ''covid'', ''#covid'']"
    by simp
  have h: "startsWith_hash ''#covid''"
    by (simp add: startsWith_hash_def)
  have b: "''##covid'' \<notin> set (takeWhile (\<lambda>u. u \<noteq> ''#covid'')
                        [''the'', ''#covid'', ''covid'', ''#covid''])"
    by simp
  from collectTypes_dedup_and_expand
         [of "[''the'', ''#covid'', ''covid'', ''#covid'']" "[]" "[]" "''#covid''"] m h b
  show ?thesis by (simp only: simp_thms)
qed

text \<open>
  Claim C6, as stated, fails for the tokens \<open>##x\<close>, \<open>#x\<close>: the second token starts
  with \<open>#\<close> and its stripped form \<open>x\<close> is not among the types collected so far,
  but the token itself is (as the stripped form of \<open>##x\<close>), so the duplicate check
  returns before the expansion and \<open>x\<close> is never emitted.
\<close>

theorem collectTypes_misses_stripped_form:
  "startsWith_hash ''#x'' \<and>
   replace_first_hash ''#x'' = ''x'' \<and>
   ''x'' \<notin> set (collectTypes [''##x'']) \<and>
   collectTypes [''##x'', ''#x''] = [''##x'', ''#x'']"
  by (simp add: collectTypes_def collect_step_def startsWith_hash_def replace_first_hash_def)

text \<open>
  Claim C10. For a token that starts with \<open>#\<close> the hashtag expansion of Collect Types
  takes away the first \<open>#\<close> only: the stripped form is the token without its first
  character, and this is the form that is added behind the token (or looked up among the
  types collected so far). So \<open>##x\<close> expands to \<open>#x\<close> and not to \<open>x\<close>.
\<close>

theorem hashtag_expansion_strips_first_hash:
  assumes "startsWith_hash token"
  shows "replace_first_hash token = tl token \<and>
         (token \<notin> set types \<and> tl token \<notin> set types \<longrightarrow>
            collect_step types token = types @ [token, tl token]) \<and>
         (token \<notin> set types \<and> tl token \<in> set types \<longrightarrow>
            collect_step types token = types @ [token])"
  using assms replace_first_hash_tl [OF assms]
  by (simp add: collect_step_def)

theorem hashtag_expansion_strips_first_hash_witness:
  "startsWith_hash ''##x'' \<and> replace_first_hash ''##x'' = ''#x'' \<and>
   collectTypes [''##x''] = [''##x'', ''#x'']"
proof -
  have h: "startsWith_hash ''##x''"
    by (simp add: startsWith_hash_def)
  from hashtag_expansion_strips_first_hash [OF h, of "[]"] h show ?thesis
    by (simp add: collectTypes_def)
qed

section \<open>Claims about the indexer\<close>

text \<open>
  Claim C3. After every record, and after each single update of the dictionary while a
  record is being indexed (the first \<open>k\<close> types of the line done, for every \<open>k\<close>),
  every postings list in the dictionary is non-empty, strictly descending in the
  internal document id, and holds no id twice.
\<close>

theorem postings_invariant:
  assumes "dictionary (index_lines lines) t = Some e \<or>
           foldl (add_posting (lineNumber (index_lines lines)))
             (dictionary (index_lines lines)) (take k (line_types line)) t = Some e"
  shows "postings_ok (postingsList e)"
proof -
  let ?s = "index_lines lines"
  have stored: "postings_ok (postingsList e0) \<and> (\<forall>d \<in> set (postingsList e0). d < lineNumber ?s)"
    if "dictionary ?s t = Some e0" for e0
    using index_lines_entry [OF that]
    by (simp add: postings_ok_def sorted_wrt_gt_distinct lineNumber_index_lines)
  from assms show ?thesis
  proof
    assume "dictionary ?s t = Some e"
    then show ?thesis using stored by blast
  next
    assume mid: "foldl (add_posting (lineNumber ?s)) (dictionary ?s) (take k (line_types line)) t
                 = Some e"
    have dist: "distinct (take k (line_types line))"
      by (simp add: line_types_distinct)
    show ?thesis
    proof (cases "dictionary ?s t")
      case None
      with mid have "postingsList e = [lineNumber ?s]"
        by (auto simp: foldl_add_posting [OF dist] split: if_splits)
      then show ?thesis by (simp add: postings_ok_def)
    next
      case (Some e0)
      with mid have "postingsList e = postingsList e0 \<or>
          postingsList e = lineNumber ?s # postingsList e0"
        by (auto simp: foldl_add_posting [OF dist] split: if_splits)
      with stored [OF Some] show ?thesis
        by (auto simp: postings_ok_def)
    qed
  qed
qed

theorem postings_invariant_witness:
  "dictionary (index_lines [record_line ''t0'' ''a'', record_line ''t1'' ''b a'',
          record_line ''t2'' ''a'']) ''a''
     = Some \<lparr>item_term = ''a'', item_size = 3, postingsList = [2, 1, 0]\<rparr> \<and>
   postings_ok [2, 1, 0] \<and>
   foldl (add_posting (lineNumber (index_lines [record_line ''t0'' ''a'',
            record_line ''t1'' ''b a'', record_line ''t2'' ''a''])))
     (dictionary (index_lines [record_line ''t0'' ''a'', record_line ''t1'' ''b a'',
            record_line ''t2'' ''a'']))
     (take 1 (line_types (record_line ''t3'' ''a c''))) ''a''
     = Some \<lparr>item_term = ''a'', item_size = 4, postingsList = [3, 2, 1, 0]\<rparr> \<and>
   postings_ok [3, 2, 1, 0]"
proof -
  have h: "dictionary (index_lines [record_line ''t0'' ''a'', record_line ''t1'' ''b a'',
          record_line ''t2'' ''a'']) ''a''
     = Some \<lparr>item_term = ''a'', item_size = 3, postingsList = [2, 1, 0]\<rparr>"
    by code_simp
  have m: "foldl (add_posting (lineNumber (index_lines [record_line ''t0'' ''a'',
            record_line ''t1'' ''b a'', record_line ''t2'' ''a''])))
     (dictionary (index_lines [record_line ''t0'' ''a'', record_line ''t1'' ''b a'',
            record_line ''t2'' ''a'']))
     (take 1 (line_types (record_line ''t3'' ''a c''))) ''a''
     = Some \<lparr>item_term = ''a'', item_size = 4, postingsList = [3, 2, 1, 0]\<rparr>"
    by code_simp
  from postings_invariant [OF disjI1, OF h] postings_invariant [OF disjI2, OF m] h m
  show ?thesis by simp
qed

text \<open>
  Claim C8. A record whose text field is missing or empty (or empty after preprocessing)
  advances the line counter and changes nothing else: the dictionary and the table of ids
  stay as they were. Whatever is indexed before and after it, the table has no entry at
  the position of that record and no postings list holds its internal id.
\<close>

theorem skipped_record_frame:
  assumes "skipped_line line"
  shows "index_line s line = s\<lparr>lineNumber := lineNumber s + 1\<rparr> \<and>
         array_get (ids (index_lines (pre @ line # post))) (length pre) = None \<and>
         (\<forall>t e. dictionary (index_lines (pre @ line # post)) t = Some e \<longrightarrow>
                length pre \<notin> set (postingsList e))"
proof -
  let ?s0 = "index_lines pre"
  let ?s1 = "index_line ?s0 line"
  have step: "index_line s line = s\<lparr>lineNumber := lineNumber s + 1\<rparr>" for s
    by (simp add: index_line_skipped [OF assms] skip_line_def)
  have inv0: "index_inv ?s0"
    by (rule index_inv_index_lines)
  have inv1: "index_inv ?s1"
    by (rule index_inv_line [OF inv0])
  have n: "length pre < lineNumber ?s1"
    by (simp add: lineNumber_index_line lineNumber_index_lines)
  have "length (ids ?s0) \<le> length pre"
    using inv0 by (simp add: index_inv_def lineNumber_index_lines)
  then have hole: "array_get (ids ?s1) (length pre) = None"
    by (simp add: step [of ?s0] array_get_def)
  have out: "\<forall>t e. dictionary ?s1 t = Some e \<longrightarrow> length pre \<notin> set (postingsList e)"
    using index_lines_entry(5) [of pre] by (fastforce simp: step [of ?s0])
  have "index_lines (pre @ line # post) = foldl index_line ?s1 post"
    by (simp add: index_lines_def)
  with hole_kept_lines [OF inv1 n hole out, of post] step [of s] show ?thesis
    by simp
qed

theorem skipped_record_frame_witness:
  "skipped_line (record_line ''t0'' '''') \<and>
   lineNumber (index_lines [record_line ''t0'' '''', record_line ''t1'' ''hello world'']) = 2 \<and>
   array_get (ids (index_lines [record_line ''t0'' '''', record_line ''t1'' ''hello world''])) 0 = None \<and>
   array_get (ids (index_lines [record_line ''t0'' '''', record_line ''t1'' ''hello world''])) 1 = Some ''t1'' \<and>
   dictionary (index_lines [record_line ''t0'' '''', record_line ''t1'' ''hello world'']) ''hello''
     = Some \<lparr>item_term = ''hello'', item_size = 1, postingsList = [1]\<rparr>"
proof -
  have h: "skipped_line (record_line ''t0'' '''')"
    by code_simp
  have e: "dictionary (index_lines [record_line ''t0'' '''', record_line ''t1'' ''hello world'']) ''hello''
     = Some \<lparr>item_term = ''hello'', item_size = 1, postingsList = [1]\<rparr>"
    by code_simp
  have l: "lineNumber (index_lines [record_line ''t0'' '''', record_line ''t1'' ''hello world'']) = 2"
    by code_simp
  have i: "array_get (ids (index_lines [record_line ''t0'' '''', record_line ''t1'' ''hello world''])) 1 = Some ''t1''"
    by code_simp
  from skipped_record_frame [OF h, of index_init "[]" "[record_line ''t1'' ''hello world'']"] h e l i
  show ?thesis by simp
qed

text \<open>
  Claim C9, as amended. Tokenize keeps a token that is exactly \<open>#\<close>, and Collect
  Types turns it into the two types \<open>#\<close> and the empty string. So after indexing a
  record whose text has a token \<open>#\<close>, with no token \<open>##\<close> before the first one, the
  dictionary has an entry for the empty string, with the empty string as its term and
  this record at the head of its postings list.
\<close>

theorem standalone_hash_empty_term:
  assumes text_field: "tweetText_of line = Some txt"
    and mem: "''#'' \<in> set (tokenize (preprocess txt))"
    and before: "''##'' \<notin> set (takeWhile (\<lambda>t. t \<noteq> ''#'') (tokenize (preprocess txt)))"
  shows "(''#'' \<in> set (split_on CHR '' '' txt') \<longrightarrow> ''#'' \<in> set (tokenize txt')) \<and>
         collectTypes [''#''] = [''#'', []] \<and>
         (\<exists>e. dictionary (index_lines (lines @ [line])) [] = Some e \<and> item_term e = [] \<and>
              hd (postingsList e) = length lines)"
proof -
  let ?s = "index_lines lines"
  have keep: "''#'' \<in> set (split_on CHR '' '' txt') \<longrightarrow> ''#'' \<in> set (tokenize txt')"
    by (simp add: tokenize_def)
  have single: "collectTypes [''#''] = [''#'', []]"
    by (simp add: collectTypes_def collect_step_def startsWith_hash_def replace_first_hash_def)
  from mem have "preprocess txt \<noteq> []"
    by (auto simp: tokenize_Nil)
  then have ns: "\<not> skipped_line line"
    using text_field by (simp add: skipped_line_def preprocess_Nil_iff)
  have "[] \<in> set (collectTypes (normalize (tokenize (preprocess txt))))"
    using mem before
    by (intro collectTypes_empty_type)
       (simp_all add: normalize_hash_mem normalize_takeWhile_hash normalize_hash_hash_mem)
  then have ty: "[] \<in> set (line_types line)"
    by (simp add: line_types_def text_field)
  have dict: "dictionary (index_lines (lines @ [line])) [] =
      Some (case dictionary ?s [] of
              None \<Rightarrow> \<lparr>item_term = [], item_size = 1, postingsList = [lineNumber ?s]\<rparr>
            | Some e \<Rightarrow> e\<lparr>item_size := item_size e + 1,
                            postingsList := lineNumber ?s # postingsList e\<rparr>)"
    using ty
    by (simp add: index_lines_snoc index_line_indexed [OF ns]
          foldl_add_posting [OF line_types_distinct])
  have "\<exists>e. dictionary (index_lines (lines @ [line])) [] = Some e \<and> item_term e = [] \<and>
              hd (postingsList e) = length lines"
  proof (cases "dictionary ?s []")
    case None
    with dict show ?thesis by (simp add: lineNumber_index_lines)
  next
    case (Some e0)
    with dict index_lines_entry(1) [OF Some] show ?thesis
      by (simp add: lineNumber_index_lines)
  qed
  with keep single show ?thesis by blast
qed

theorem standalone_hash_empty_term_witness:
  "''#'' \<in> set (tokenize (preprocess ''# a'')) \<and>
   dictionary (index_lines [record_line ''t1'' ''# a'']) []
     = Some \<lparr>item_term = [], item_size = 1, postingsList = [0]\<rparr>"
proof -
  have text_field: "tweetText_of (record_line ''t1'' ''# a'') = Some ''# a''"
    by code_simp
  have mem: "''#'' \<in> set (tokenize (preprocess ''# a''))"
    by code_simp
  have before: "''##'' \<notin> set (takeWhile (\<lambda>t. t \<noteq> ''#'') (tokenize (preprocess ''# a'')))"
    by code_simp
  have e: "dictionary (index_lines [record_line ''t1'' ''# a'']) []
     = Some \<lparr>item_term = [], item_size = 1, postingsList = [0]\<rparr>"
    by code_simp
  from standalone_hash_empty_term [OF text_field mem before, of "''#''" "[]"] mem e
  show ?thesis by simp
qed

text \<open>
  Claim C9, as stated, fails for the text \<open>## #\<close>: the token \<open>##\<close> already adds
  \<open>#\<close> as its stripped form, the token \<open>#\<close> is then dropped as a duplicate, and no
  entry for the empty string is made.
\<close>

theorem standalone_hash_after_double_hash:
  "''#'' \<in> set (tokenize (preprocess ''## #'')) \<and>
   dictionary (index_lines [record_line ''t1'' ''## #'']) [] = None"
  by code_simp

section \<open>Claims about the query engine\<close>

text \<open>
  Claim C5. On an index built by the indexer, the query for one term that is in the
  dictionary returns the postings list of the term, read from its head and mapped through
  the table of ids: as many results as the stored document frequency, in strictly
  descending order of the internal id, each of them an external id that was stored. For
  a term that is not in the dictionary the result is empty.
\<close>

theorem single_term_query:
  assumes "s = index_lines lines"
  shows "(dictionary s t = Some e \<longrightarrow>
            query (dictionary s) (ids s) [t] = map (array_get (ids s)) (postingsList e) \<and>
            length (query (dictionary s) (ids s) [t]) = item_size e \<and>
            sorted_wrt (>) (postingsList e) \<and>
            None \<notin> set (query (dictionary s) (ids s) [t])) \<and>
         (dictionary s t = None \<longrightarrow> query (dictionary s) (ids s) [t] = [])"
proof (intro conjI impI)
  assume "dictionary s t = None"
  then show "query (dictionary s) (ids s) [t] = []"
    by (simp add: query_def get_postings_def)
next
  assume e: "dictionary s t = Some e"
  then show q: "query (dictionary s) (ids s) [t] = map (array_get (ids s)) (postingsList e)"
    by (simp add: query_def get_postings_def)
  from e have e': "dictionary (index_lines lines) t = Some e"
    by (simp add: assms)
  show "length (query (dictionary s) (ids s) [t]) = item_size e"
    using index_lines_entry(2) [OF e'] by (simp add: q)
  show "sorted_wrt (>) (postingsList e)"
    by (rule index_lines_entry(4) [OF e'])
  show "None \<notin> set (query (dictionary s) (ids s) [t])"
    unfolding q using index_lines_entry(5) [OF e'] by (auto simp: assms)
qed

theorem single_term_query_witness:
  "query (dictionary (index_lines [record_line ''t1'' ''side effects'', record_line ''t2'' ''side'']))
     (ids (index_lines [record_line ''t1'' ''side effects'', record_line ''t2'' ''side'']))
     [''side''] = [Some ''t2'', Some ''t1''] \<and>
   query (dictionary (index_lines [record_line ''t1'' ''side effects'', record_line ''t2'' ''side'']))
     (ids (index_lines [record_line ''t1'' ''side effects'', record_line ''t2'' ''side'']))
     [''malaria''] = []"
proof -
  let ?s = "index_lines [record_line ''t1'' ''side effects'', record_line ''t2'' ''side'']"
  have a: "dictionary ?s ''side'' = Some \<lparr>item_term = ''side'', item_size = 2, postingsList = [1, 0]\<rparr>"
    by code_simp
  have b: "dictionary ?s ''malaria'' = None"
    by code_simp
  have i: "map (array_get (ids ?s)) [1, 0] = [Some ''t2'', Some ''t1'']"
    by code_simp
  from single_term_query [OF refl, of "[record_line ''t1'' ''side effects'', record_line ''t2'' ''side'']" "''side''"
         "\<lparr>item_term = ''side'', item_size = 2, postingsList = [1, 0]\<rparr>"]
       single_term_query [OF refl, of "[record_line ''t1'' ''side effects'', record_line ''t2'' ''side'']" "''malaria''"]
       a b i
  show ?thesis by simp
qed

text \<open>
  Claim C2, as amended. On an index built by the indexer in which the stored external ids
  are pairwise different, a query with two or more terms returns exactly the external ids
  that every one of the single-term queries returns, and returns none of them twice,
  whenever all its terms are in the dictionary or at most one of them is. (A query with a
  term that is not in the dictionary next to two or more terms that are is the case of
  claim C1 and is left out.) Every query with exactly two terms is covered.
\<close>

theorem multi_term_query_intersection:
  assumes s: "s = index_lines lines"
    and len: "2 \<le> length terms"
    and ids: "distinct_ids (ids s)"
    and present: "(\<forall>t \<in> set terms. dictionary s t \<noteq> None) \<or>
                  length (filter (\<lambda>t. dictionary s t \<noteq> None) terms) \<le> 1"
  shows "set (query (dictionary s) (ids s) terms) =
           (\<Inter>t \<in> set terms. set (query (dictionary s) (ids s) [t])) \<and>
         distinct (query (dictionary s) (ids s) terms)"
proof (cases "\<forall>t \<in> set terms. dictionary s t \<noteq> None")
  case all: True
  let ?d = "dictionary s" and ?g = "array_get (ids s)"
  let ?C = "{d. ?g d \<noteq> None}"
  from len obtain t1 t2 ts where terms: "terms = t1 # t2 # ts"
    by (cases terms; cases "tl terms") auto
  have post: "get_postings ?d t \<noteq> [] \<and> sorted_wrt (>) (get_postings ?d t) \<and>
              set (get_postings ?d t) \<subseteq> ?C" if "t \<in> set terms" for t
  proof -
    from all that obtain e where e: "dictionary (index_lines lines) t = Some e"
      by (auto simp: s)
    from index_lines_entry(3,4,5) [OF e] e show ?thesis
      by (auto simp: get_postings_def s)
  qed
  let ?r = "filter (\<lambda>x. \<forall>t \<in> set (t2 # ts). x \<in> set (get_postings ?d t)) (get_postings ?d t1)"
  have q: "query ?d (ids s) terms = map ?g ?r"
    unfolding terms using post by (intro query_present) (simp add: terms)
  have inj: "inj_on ?g ?C"
    by (rule distinct_ids_inj [OF ids])
  have r_set: "set ?r = (\<Inter>t \<in> set terms. set (get_postings ?d t))"
    by (auto simp: terms)
  have "?g ` (\<Inter>t \<in> set terms. set (get_postings ?d t)) =
        (\<Inter>t \<in> set terms. ?g ` set (get_postings ?d t))"
    using post by (intro image_INT [OF inj, of _ _ t1]) (auto simp: terms)
  then have "set (query ?d (ids s) terms) = (\<Inter>t \<in> set terms. set (query ?d (ids s) [t]))"
    unfolding q by (simp only: set_map r_set query_single)
  moreover have "distinct (query ?d (ids s) terms)"
  proof -
    have "sorted_wrt (>) ?r"
      using post [of t1] by (intro sorted_wrt_filter) (simp add: terms)
    then have "distinct ?r" by (rule sorted_wrt_gt_distinct)
    moreover have "set ?r \<subseteq> ?C"
      using post [of t1] by (auto simp: terms)
    ultimately show ?thesis
      unfolding q using inj by (simp add: distinct_map inj_on_subset)
  qed
  ultimately show ?thesis by blast
next
  case False
  then obtain t where t: "t \<in> set terms" "dictionary s t = None"
    by blast
  from False present have few: "length (filter (\<lambda>t. dictionary s t \<noteq> None) terms) \<le> 1"
    by blast
  have "filter (\<lambda>x. x \<noteq> []) (map (get_postings (dictionary s)) terms) =
        map (get_postings (dictionary s)) (filter (\<lambda>t. dictionary s t \<noteq> None) terms)"
  proof -
    have "get_postings (dictionary s) u \<noteq> [] \<longleftrightarrow> dictionary s u \<noteq> None" for u
    proof (cases "dictionary s u")
      case None
      then show ?thesis by (simp add: get_postings_def)
    next
      case (Some e)
      then have "dictionary (index_lines lines) u = Some e" by (simp add: s)
      from index_lines_entry(3) [OF this] Some show ?thesis
        by (simp add: get_postings_def)
    qed
    then show ?thesis
      by (simp add: filter_map comp_def)
  qed
  with few have "length (filter (\<lambda>x. x \<noteq> []) (map (get_postings (dictionary s)) terms)) \<le> 1"
    by simp
  then have q: "query (dictionary s) (ids s) terms = []"
    by (rule query_second_head_missing [OF len])
  have "query (dictionary s) (ids s) [t] = []"
    using t(2) by (simp add: query_single get_postings_def)
  with t(1) have "(\<Inter>t \<in> set terms. set (query (dictionary s) (ids s) [t])) = {}"
    by fastforce
  with q show ?thesis by simp
qed

theorem multi_term_query_intersection_witness:
  "query (dictionary (index_lines [record_line ''t1'' ''side effects of the vaccine'',
                                   record_line ''t2'' ''side effects of malaria vaccine'']))
         (ids (index_lines [record_line ''t1'' ''side effects of the vaccine'',
                            record_line ''t2'' ''side effects of malaria vaccine'']))
         [''malaria'', ''vaccine''] = [Some ''t2''] \<and>
   query (dictionary (index_lines [record_line ''t1'' ''side effects of the vaccine'',
                                   record_line ''t2'' ''side effects of malaria vaccine'']))
         (ids (index_lines [record_line ''t1'' ''side effects of the vaccine'',
                            record_line ''t2'' ''side effects of malaria vaccine'']))
         [''malaria''] = [Some ''t2''] \<and>
   query (dictionary (index_lines [record_line ''t1'' ''side effects of the vaccine'',
                                   record_line ''t2'' ''side effects of malaria vaccine'']))
         (ids (index_lines [record_line ''t1'' ''side effects of the vaccine'',
                            record_line ''t2'' ''side effects of malaria vaccine'']))
         [''vaccine''] = [Some ''t2'', Some ''t1''] \<and>
   query (dictionary (index_lines [record_line ''t1'' ''side effects of the vaccine'',
                                   record_line ''t2'' ''side effects of malaria vaccine'']))
         (ids (index_lines [record_line ''t1'' ''side effects of the vaccine'',
                            record_line ''t2'' ''side effects of malaria vaccine'']))
         [''vaccine'', ''covid''] = [] \<and>
   query (dictionary (index_lines [record_line ''t1'' ''side effects of the vaccine'',
                                   record_line ''t2'' ''side effects of malaria vaccine'']))
         (ids (index_lines [record_line ''t1'' ''side effects of the vaccine'',
                            record_line ''t2'' ''side effects of malaria vaccine'']))
         [''covid''] = []"
proof -
  let ?L = "[record_line ''t1'' ''side effects of the vaccine'',
             record_line ''t2'' ''side effects of malaria vaccine'']"
  let ?s = "index_lines ?L"
  have len: "2 \<le> length [''malaria'', ''vaccine'']"
    by simp
  have len': "2 \<le> length [''vaccine'', ''covid'']"
    by simp
  have present: "\<forall>t \<in> set [''malaria'', ''vaccine'']. dictionary ?s t \<noteq> None"
    by code_simp
  have few: "length (filter (\<lambda>t. dictionary ?s t \<noteq> None) [''vaccine'', ''covid'']) \<le> 1"
    by code_simp
  have ids: "distinct_ids (ids ?s)"
    by code_simp
  have m: "query (dictionary ?s) (ids ?s) [''malaria''] = [Some ''t2'']"
    by code_simp
  have v: "query (dictionary ?s) (ids ?s) [''vaccine''] = [Some ''t2'', Some ''t1'']"
    by code_simp
  have c: "query (dictionary ?s) (ids ?s) [''covid''] = []"
    by code_simp
  have mv: "query (dictionary ?s) (ids ?s) [''malaria'', ''vaccine''] = [Some ''t2'']"
    by code_simp
  have vc: "query (dictionary ?s) (ids ?s) [''vaccine'', ''covid''] = []"
    by code_simp
  from multi_term_query_intersection [OF refl len ids disjI1, OF present]
       multi_term_query_intersection [OF refl len' ids disjI2, OF few]
       m v c mv vc
  show ?thesis by simp
qed

text \<open>
  Claim C2, as stated, fails when two records carry the same external id: the record
  \<open>x\<close> with the text \<open>a\<close> and a second record \<open>x\<close> with the text \<open>b\<close> share no
  internal id, so the query for both terms is empty, while each single-term query
  returns \<open>x\<close>.
\<close>

theorem multi_term_query_duplicate_ids:
  "set (query (dictionary (index_lines [record_line ''x'' ''a'', record_line ''x'' ''b'']))
              (ids (index_lines [record_line ''x'' ''a'', record_line ''x'' ''b'']))
              [''a'', ''b''])
   \<noteq> set (query (dictionary (index_lines [record_line ''x'' ''a'', record_line ''x'' ''b'']))
              (ids (index_lines [record_line ''x'' ''a'', record_line ''x'' ''b'']))
              [''a''])
     \<inter> set (query (dictionary (index_lines [record_line ''x'' ''a'', record_line ''x'' ''b'']))
              (ids (index_lines [record_line ''x'' ''a'', record_line ''x'' ''b'']))
              [''b''])"
proof -
  let ?s = "index_lines [record_line ''x'' ''a'', record_line ''x'' ''b'']"
  have a: "query (dictionary ?s) (ids ?s) [''a''] = [Some ''x'']"
    by code_simp
  have b: "query (dictionary ?s) (ids ?s) [''b''] = [Some ''x'']"
    by code_simp
  have ab: "query (dictionary ?s) (ids ?s) [''a'', ''b''] = []"
    by code_simp
  show ?thesis
    unfolding a b ab by simp
qed

text \<open>
  Claim C1. With three terms of which the middle one is not in the dictionary, the sort
  moves the missing head behind the two present ones, the two present lists are merged,
  and the loop stops at the missing head with the merged list as the result: the query
  returns the record although one of its terms occurs nowhere.
\<close>

theorem query_ignores_absent_term:
  "dictionary (index_lines [record_line ''t1'' ''side effects'']) ''zzz'' = None \<and>
   query (dictionary (index_lines [record_line ''t1'' ''side effects'']))
         (ids (index_lines [record_line ''t1'' ''side effects'']))
         [''side'', ''zzz'', ''effects''] = [Some ''t1'']"
  by code_simp

text \<open>
  Claim C4. The comparator reads \<open>size\<close> from the list nodes, which have no such
  property, so the sort leaves the heads in the order of the terms: for the terms
  \<open>side\<close> (document frequency 2) and \<open>effects\<close> (document frequency 1) the longer list
  still comes first.
\<close>

theorem heads_keep_term_order:
  "dictionary (index_lines [record_line ''t1'' ''side effects'', record_line ''t2'' ''side'']) ''side''
     = Some \<lparr>item_term = ''side'', item_size = 2, postingsList = [1, 0]\<rparr> \<and>
   dictionary (index_lines [record_line ''t1'' ''side effects'', record_line ''t2'' ''side'']) ''effects''
     = Some \<lparr>item_term = ''effects'', item_size = 1, postingsList = [0]\<rparr> \<and>
   array_sort compare_size
     (map (get_postings (dictionary (index_lines
        [record_line ''t1'' ''side effects'', record_line ''t2'' ''side''])))
        [''side'', ''effects''])
     = [[1, 0], [0]]"
  by code_simp

end
